theory Spec2Isabelle
  imports Main
begin

section \<open>pprofsvr: the handler cache and the request router\<close>

text \<open>
  The development follows the revision of the server's main file that wraps every rendered
  handler in a navigation bar and serves the rich directory listing. The other revision in
  the repository has the same \<open>getHandler\<close>, \<open>cleanupProfiles\<close> and routing; it
  differs in that it stores the rendered handlers unwrapped and stats a file by opening it
  through the server's file system, answering 500 when the stat of the opened file fails.

  Strings are byte lists and times are integers (nanoseconds on one time line). The
  collaborators outside the repository, \<open>os.Stat\<close>, \<open>driver.PProf\<close>, the flags that
  the driver registers and \<open>filepath.Join\<close>, are fields of an environment record, and
  the clock reading of \<open>time.Now()\<close> is an argument of the function that reads it.
\<close>

subsection \<open>Data\<close>

datatype error = StatError string | PProfError string

text \<open>
  A call either returns or ends the process: the flag set handed to the driver is made with
  \<open>flag.ExitOnError\<close>, so a parse error inside \<open>driver.PProf\<close> calls \<open>os.Exit\<close>.
\<close>

datatype 'a call = ProcessExit | Returns 'a

record fileInfo =
  modTime :: int
  isDir :: bool

text \<open>
  The callback handed to \<open>driver.PProf\<close> replaces every handler of the rendered set by a
  closure over its route and the original handler; \<open>NavWrap path h\<close> is that closure
  (each iteration of the loop has its own \<open>path\<close> and \<open>handler\<close>). Rendered
  handlers are numbered.
\<close>

datatype handler = NavWrap string nat

text \<open>\<open>PProfHandler\<close>: the handler table of \<open>driver.HTTPServerArgs\<close> and the load time.\<close>

record PProfHandler =
  args :: "string \<rightharpoonup> handler"
  time :: int

text \<open>
  \<open>pprof e fp\<close> is what \<open>driver.PProf\<close> returns for the arguments ending in \<open>fp\<close>
  once the flag set has parsed them: an error, or the handlers it hands to the \<open>HTTPServer\<close>
  callback. \<open>flagAccepted e x\<close> tells whether the flags that the driver registers accept
  \<open>x\<close> (a flag name, or \<open>name=value\<close>) as the last argument.
\<close>

record env =
  stat :: "string \<Rightarrow> error + fileInfo"
  pprof :: "string \<Rightarrow> error + (string \<rightharpoonup> nat)"
  flagAccepted :: "string \<Rightarrow> bool"
  joinPath :: "string \<Rightarrow> string \<Rightarrow> string"
  repoPath :: string

text \<open>
  The shared table \<open>profileMap\<close>, and the trace of the calls made to \<open>driver.PProf\<close>
  (one file path per call, oldest first).
\<close>

record state =
  profileMap :: "string \<rightharpoonup> PProfHandler"
  pprofCalls :: "string list"

subsection \<open>The cache: \<open>getHandler\<close>\<close>

definition wrapHandlers :: "(string \<rightharpoonup> nat) \<Rightarrow> (string \<rightharpoonup> handler)" where
  "wrapHandlers hs = (\<lambda>path. case hs path of None \<Rightarrow> None | Some h \<Rightarrow> Some (NavWrap path h))"

text \<open>
  \<open>GoFlags.Parse\<close> runs \<open>FlagSet.Parse\<close> on \<open>-http :8888 --no_browser fp\<close>. The first
  three arguments are flags of the driver; what happens at \<open>fp\<close> is \<open>parseOne\<close> of the
  \<open>flag\<close> package: a string shorter than two bytes or not starting with \<open>-\<close> is the
  profile source, \<open>--\<close> ends the flags, and anything else is read as a flag, after one or
  two dashes. A flag that is empty, starts with \<open>-\<close> or \<open>=\<close>, or is not accepted by
  the registered flags is an error, and the error handling of the flag set exits.
\<close>

definition parseExits :: "env \<Rightarrow> string \<Rightarrow> bool" where
  "parseExits e fp =
     (case fp of
        c # d # rest \<Rightarrow>
          if c \<noteq> CHR ''-'' then False
          else if d = CHR ''-'' \<and> rest = [] then False
          else (case (if d = CHR ''-'' then rest else d # rest) of
                  [] \<Rightarrow> True
                | x # name \<Rightarrow>
                    x = CHR ''-'' \<or> x = CHR ''='' \<or> \<not> flagAccepted e (x # name))
      | short \<Rightarrow> False)"

text \<open>The call \<open>driver.PProf(opts)\<close> made by \<open>getHandler\<close> for the file \<open>fp\<close>.\<close>

definition driverPProf :: "env \<Rightarrow> string \<Rightarrow> (error + (string \<rightharpoonup> nat)) call" where
  "driverPProf e fp = (if parseExits e fp then ProcessExit else Returns (pprof e fp))"

text \<open>
  \<open>buildHandler\<close> is that call with the \<open>HTTPServer\<close> callback that fills the fresh
  \<open>PProfHandler\<close>: the load time is the clock reading \<open>now\<close>.
\<close>

definition buildHandler :: "env \<Rightarrow> int \<Rightarrow> string \<Rightarrow> (error + PProfHandler) call" where
  "buildHandler e now fp =
     (case driverPProf e fp of
        ProcessExit \<Rightarrow> ProcessExit
      | Returns (Inl err) \<Rightarrow> Returns (Inl err)
      | Returns (Inr hs) \<Rightarrow> Returns (Inr \<lparr>args = wrapHandlers hs, time = now\<rparr>))"

text \<open>
  The part of \<open>getHandler\<close> that runs with the mutex held. When the process exits in the
  build, the state is the one at the exit.
\<close>

definition getHandlerLocked ::
  "env \<Rightarrow> int \<Rightarrow> string \<Rightarrow> 'a state_scheme \<Rightarrow>
   (error + PProfHandler) call \<times> 'a state_scheme" where
  "getHandlerLocked e now fp s =
     (case profileMap s fp of
        Some v \<Rightarrow> (Returns (Inr v), s)
      | None \<Rightarrow>
          (case buildHandler e now fp of
             ProcessExit \<Rightarrow> (ProcessExit, s\<lparr>pprofCalls := pprofCalls s @ [fp]\<rparr>)
           | Returns (Inl err) \<Rightarrow> (Returns (Inl err), s\<lparr>pprofCalls := pprofCalls s @ [fp]\<rparr>)
           | Returns (Inr ph) \<Rightarrow>
               (Returns (Inr ph), s\<lparr>profileMap := (profileMap s)(fp \<mapsto> ph),
                                   pprofCalls := pprofCalls s @ [fp]\<rparr>)))"

text \<open>
  One call of \<open>getHandler\<close> running alone, at clock reading \<open>now\<close>.
  \<open>info.ModTime().After(ph.time)\<close> is the strict comparison.
\<close>

definition getHandler ::
  "env \<Rightarrow> int \<Rightarrow> string \<Rightarrow> 'a state_scheme \<Rightarrow>
   (error + PProfHandler) call \<times> 'a state_scheme" where
  "getHandler e now fp s =
     (case stat e fp of
        Inl err \<Rightarrow> (Returns (Inl err), s)
      | Inr info \<Rightarrow>
          (case profileMap s fp of
             Some ph \<Rightarrow>
               if time ph < modTime info
               then getHandlerLocked e now fp (s\<lparr>profileMap := (profileMap s)(fp := None)\<rparr>)
               else (Returns (Inr ph), s)
           | None \<Rightarrow> getHandlerLocked e now fp s))"

subsection \<open>The router\<close>

text \<open>
  \<open>strings.Cut s sep\<close> slices \<open>s\<close> around the first instance of \<open>sep\<close>; without one it
  returns \<open>s\<close>, the empty string and false.
\<close>

fun hasPrefix :: "string \<Rightarrow> string \<Rightarrow> bool" where
  "hasPrefix s [] = True"
| "hasPrefix [] (p # ps) = False"
| "hasPrefix (c # cs) (p # ps) = (c = p \<and> hasPrefix cs ps)"

fun Cut :: "string \<Rightarrow> string \<Rightarrow> string \<times> string \<times> bool" where
  "Cut [] sep = (if sep = [] then ([], [], True) else ([], [], False))"
| "Cut (c # cs) sep =
     (if hasPrefix (c # cs) sep then ([], drop (length sep) (c # cs), True)
      else (case Cut cs sep of
              (before, after, True) \<Rightarrow> (c # before, after, True)
            | (before, after, False) \<Rightarrow> (c # cs, [], False)))"

text \<open>
  What the handler of the catch-all route does, in order: what it writes to the response,
  or \<open>OsExit\<close> when the process exits under it.
\<close>

datatype action =
    ServeHTTP handler
  | AbortWithError nat error
  | WriteHeader nat
  | Redirect nat string
  | FileServer
  | OsExit

text \<open>
  The handler registered for \<open>/*filepath\<close>. The route parameter \<open>filepath\<close> of a catch-all
  route is the request path itself.
\<close>

definition route ::
  "env \<Rightarrow> int \<Rightarrow> string \<Rightarrow> 'a state_scheme \<Rightarrow> action list \<times> 'a state_scheme" where
  "route e now path s =
     (case Cut path ''/ui'' of
        (before, after, True) \<Rightarrow>
          (case getHandler e now (joinPath e (repoPath e) before) s of
             (ProcessExit, s') \<Rightarrow> ([OsExit], s')
           | (Returns (Inl err), s') \<Rightarrow> ([AbortWithError 500 err], s')
           | (Returns (Inr ph), s') \<Rightarrow>
               (case args ph (if after = [] then ''/'' else after) of
                  Some h \<Rightarrow> ([ServeHTTP h], s')
                | None \<Rightarrow> ([], s')))
      | (before, after, False) \<Rightarrow>
          (case stat e (joinPath e (repoPath e) path) of
             Inl err \<Rightarrow> ([WriteHeader 404], s)
           | Inr info \<Rightarrow>
               if \<not> isDir info
               then (case getHandler e now (joinPath e (repoPath e) before) s of
                       (ProcessExit, s') \<Rightarrow> ([OsExit], s')
                     | (Returns (Inl err), s') \<Rightarrow> ([AbortWithError 500 err], s')
                     | (Returns (Inr ph), s') \<Rightarrow>
                         ([Redirect 302 (path @ ''/ui/''), FileServer], s'))
               else ([FileServer], s)))"

subsection \<open>The evictor: one sweep of \<open>cleanupProfiles\<close>\<close>

text \<open>
  \<open>time.Since(t)\<close> is \<open>time.Now().Sub(t)\<close>, a 64-bit duration in nanoseconds that
  saturates at both ends instead of wrapping.
\<close>

definition maxDuration :: int where
  "maxDuration = 2 ^ 63 - 1"

definition minDuration :: int where
  "minDuration = - (2 ^ 63)"

definition since :: "int \<Rightarrow> int \<Rightarrow> int" where
  "since now t =
     (if maxDuration < now - t then maxDuration
      else if now - t < minDuration then minDuration
      else now - t)"

definition profileTTL :: int where
  "profileTTL = 30 * (60 * 1000000000)"

text \<open>
  The body of the loop after the sleep: \<open>Range\<close> visits every entry of the table and the
  callback deletes the entry it is given when its age is over the TTL. \<open>now\<close> is the
  clock reading of the sweep.
\<close>

definition cleanupSweep :: "int \<Rightarrow> 'a state_scheme \<Rightarrow> 'a state_scheme" where
  "cleanupSweep now s =
     s\<lparr>profileMap :=
         (\<lambda>key. case profileMap s key of
                  None \<Rightarrow> None
                | Some ph \<Rightarrow> if profileTTL < since now (time ph) then None else Some ph)\<rparr>"

subsection \<open>Callers of \<open>getHandler\<close> running together\<close>

text \<open>
  Each caller is a thread with a program counter placed before the next operation on shared
  data: \<open>os.Stat\<close>, the first \<open>Load\<close>, the \<open>Delete\<close> of a stale entry, \<open>mu.Lock\<close>, the
  second \<open>Load\<close>, \<open>driver.PProf\<close>, \<open>Store\<close>, and the deferred \<open>mu.Unlock\<close> that runs
  when the function returns with the mutex held.
\<close>

datatype pc =
    AtStat
  | AtLoad fileInfo
  | AtDelete
  | AtLock
  | AtRecheck
  | AtBuild
  | AtStore PProfHandler
  | AtUnlock "error + PProfHandler"
  | Done "error + PProfHandler"

text \<open>The mutex holder, the callers, and whether the process has exited.\<close>

record sys = state +
  mu :: "nat option"
  threads :: "(string \<times> pc) list"
  exited :: bool

definition setPc :: "nat \<Rightarrow> pc \<Rightarrow> sys \<Rightarrow> sys" where
  "setPc t p s = s\<lparr>threads := (threads s)[t := (fst (threads s ! t), p)]\<rparr>"

text \<open>
  Thread \<open>t\<close> performs its next operation at clock reading \<open>now\<close>. A thread that does not
  exist, one that has returned, and one waiting for a mutex that is held leave the system as
  it is, and nothing runs once the process has exited.
\<close>

definition step :: "env \<Rightarrow> int \<Rightarrow> nat \<Rightarrow> sys \<Rightarrow> sys" where
  "step e now t s =
     (if exited s \<or> length (threads s) \<le> t then s
      else
        (case threads s ! t of (fp, p) \<Rightarrow>
           (case p of
              AtStat \<Rightarrow>
                (case stat e fp of
                   Inl err \<Rightarrow> setPc t (Done (Inl err)) s
                 | Inr info \<Rightarrow> setPc t (AtLoad info) s)
            | AtLoad info \<Rightarrow>
                (case profileMap s fp of
                   Some ph \<Rightarrow>
                     if time ph < modTime info then setPc t AtDelete s
                     else setPc t (Done (Inr ph)) s
                 | None \<Rightarrow> setPc t AtLock s)
            | AtDelete \<Rightarrow> setPc t AtLock (s\<lparr>profileMap := (profileMap s)(fp := None)\<rparr>)
            | AtLock \<Rightarrow>
                (case mu s of
                   None \<Rightarrow> setPc t AtRecheck (s\<lparr>mu := Some t\<rparr>)
                 | Some holder \<Rightarrow> s)
            | AtRecheck \<Rightarrow>
                (case profileMap s fp of
                   Some v \<Rightarrow> setPc t (AtUnlock (Inr v)) s
                 | None \<Rightarrow> setPc t AtBuild s)
            | AtBuild \<Rightarrow>
                (case buildHandler e now fp of
                   ProcessExit \<Rightarrow> s\<lparr>pprofCalls := pprofCalls s @ [fp], exited := True\<rparr>
                 | Returns (Inl err) \<Rightarrow>
                     setPc t (AtUnlock (Inl err)) (s\<lparr>pprofCalls := pprofCalls s @ [fp]\<rparr>)
                 | Returns (Inr ph) \<Rightarrow>
                     setPc t (AtStore ph) (s\<lparr>pprofCalls := pprofCalls s @ [fp]\<rparr>))
            | AtStore ph \<Rightarrow>
                setPc t (AtUnlock (Inr ph)) (s\<lparr>profileMap := (profileMap s)(fp \<mapsto> ph)\<rparr>)
            | AtUnlock r \<Rightarrow> setPc t (Done r) (s\<lparr>mu := None\<rparr>)
            | Done r \<Rightarrow> s)))"

text \<open>
  A run is a list of events: a thread takes a step at some clock reading, or the file system
  changes under the server (a file is written, so its modification time moves).
\<close>

datatype event = Step nat int | Touch string int

fun run :: "env \<Rightarrow> event list \<Rightarrow> sys \<Rightarrow> sys" where
  "run e [] s = s"
| "run e (Step t now # evs) s = run e evs (step e now t s)"
| "run e (Touch fp m # evs) s =
     run (e\<lparr>stat := (stat e)(fp := Inr \<lparr>modTime = m, isDir = False\<rparr>)\<rparr>) evs s"

text \<open>\<open>n\<close> callers of \<open>getHandler fp\<close> that have not started yet, over the table \<open>m\<close>.\<close>

definition callers :: "nat \<Rightarrow> string \<Rightarrow> (string \<rightharpoonup> PProfHandler) \<Rightarrow> sys" where
  "callers n fp m =
     \<lparr>profileMap = m, pprofCalls = [], mu = None, threads = replicate n (fp, AtStat),
      exited = False\<rparr>"

fun returned :: "pc \<Rightarrow> bool" where
  "returned (Done r) = True"
| "returned p = False"

definition allReturned :: "sys \<Rightarrow> bool" where
  "allReturned s = list_all (\<lambda>th. returned (snd th)) (threads s)"

text \<open>Every event is a step taken at a clock reading not before \<open>m\<close>.\<close>

fun stepsFrom :: "int \<Rightarrow> event list \<Rightarrow> bool" where
  "stepsFrom m [] = True"
| "stepsFrom m (Step t now # evs) = (m \<le> now \<and> stepsFrom m evs)"
| "stepsFrom m (Touch fp x # evs) = False"

subsection \<open>The invariant of a cold start\<close>

text \<open>
  What holds while callers of one key run from an empty slot of the table \<open>m\<close> and the
  build succeeds: who may hold the mutex, and what each program counter may be before the
  build (\<open>coldOk\<close>), between the build and the store (\<open>builtOk\<close>) and after the store
  (\<open>storedOk\<close>).
\<close>

fun holdsMu :: "pc \<Rightarrow> bool" where
  "holdsMu AtRecheck = True"
| "holdsMu AtBuild = True"
| "holdsMu (AtStore ph) = True"
| "holdsMu (AtUnlock r) = True"
| "holdsMu p = False"

fun coldOk :: "fileInfo \<Rightarrow> pc \<Rightarrow> bool" where
  "coldOk i AtStat = True"
| "coldOk i (AtLoad j) = (j = i)"
| "coldOk i AtLock = True"
| "coldOk i AtRecheck = True"
| "coldOk i AtBuild = True"
| "coldOk i p = False"

fun builtOk :: "fileInfo \<Rightarrow> PProfHandler \<Rightarrow> pc \<Rightarrow> bool" where
  "builtOk i ph AtStat = True"
| "builtOk i ph (AtLoad j) = (j = i)"
| "builtOk i ph AtLock = True"
| "builtOk i ph (AtStore v) = (v = ph)"
| "builtOk i ph p = False"

fun storedOk :: "fileInfo \<Rightarrow> PProfHandler \<Rightarrow> pc \<Rightarrow> bool" where
  "storedOk i ph AtStat = True"
| "storedOk i ph (AtLoad j) = (j = i)"
| "storedOk i ph AtLock = True"
| "storedOk i ph AtRecheck = True"
| "storedOk i ph (AtUnlock r) = (r = Inr ph)"
| "storedOk i ph (Done r) = (r = Inr ph)"
| "storedOk i ph p = False"

definition lockInv :: "string \<Rightarrow> sys \<Rightarrow> bool" where
  "lockInv fp s =
     (\<forall>t < length (threads s).
        fst (threads s ! t) = fp \<and> holdsMu (snd (threads s ! t)) = (mu s = Some t))"

definition phaseCold :: "fileInfo \<Rightarrow> (string \<rightharpoonup> PProfHandler) \<Rightarrow> sys \<Rightarrow> bool" where
  "phaseCold i m s =
     (profileMap s = m \<and> pprofCalls s = [] \<and>
      (\<forall>t < length (threads s). coldOk i (snd (threads s ! t))))"

definition phaseBuilt ::
  "fileInfo \<Rightarrow> string \<Rightarrow> (string \<rightharpoonup> PProfHandler) \<Rightarrow> PProfHandler \<Rightarrow> sys \<Rightarrow> bool" where
  "phaseBuilt i fp m ph s =
     (profileMap s = m \<and> pprofCalls s = [fp] \<and> mu s \<noteq> None \<and>
      (\<forall>t < length (threads s). builtOk i ph (snd (threads s ! t))))"

definition phaseStored ::
  "fileInfo \<Rightarrow> string \<Rightarrow> (string \<rightharpoonup> PProfHandler) \<Rightarrow> PProfHandler \<Rightarrow> sys \<Rightarrow> bool" where
  "phaseStored i fp m ph s =
     (profileMap s = m(fp \<mapsto> ph) \<and> pprofCalls s = [fp] \<and>
      (\<forall>t < length (threads s). storedOk i ph (snd (threads s ! t))))"

definition handlerOk :: "fileInfo \<Rightarrow> (string \<rightharpoonup> nat) \<Rightarrow> PProfHandler \<Rightarrow> bool" where
  "handlerOk i hs ph = (modTime i \<le> time ph \<and> args ph = wrapHandlers hs)"

definition singleFlightInv ::
  "fileInfo \<Rightarrow> (string \<rightharpoonup> nat) \<Rightarrow> string \<Rightarrow> (string \<rightharpoonup> PProfHandler) \<Rightarrow> sys \<Rightarrow> bool" where
  "singleFlightInv i hs fp m s =
     (m fp = None \<and> \<not> exited s \<and> lockInv fp s \<and>
      (phaseCold i m s \<or>
       (\<exists>ph. handlerOk i hs ph \<and> (phaseBuilt i fp m ph s \<or> phaseStored i fp m ph s))))"

text \<open>
  The same while the build fails: the table stays as it was, every caller that has come out
  of the build carries the renderer's error, and the trace holds one call per such caller.
\<close>

fun failedOk :: "fileInfo \<Rightarrow> error \<Rightarrow> pc \<Rightarrow> bool" where
  "failedOk i err AtStat = True"
| "failedOk i err (AtLoad j) = (j = i)"
| "failedOk i err AtLock = True"
| "failedOk i err AtRecheck = True"
| "failedOk i err AtBuild = True"
| "failedOk i err (AtUnlock r) = (r = Inl err)"
| "failedOk i err (Done r) = (r = Inl err)"
| "failedOk i err p = False"

fun built :: "string \<times> pc \<Rightarrow> bool" where
  "built (fp, AtUnlock r) = True"
| "built (fp, Done r) = True"
| "built th = False"

definition retryInv ::
  "fileInfo \<Rightarrow> error \<Rightarrow> string \<Rightarrow> (string \<rightharpoonup> PProfHandler) \<Rightarrow> sys \<Rightarrow> bool" where
  "retryInv i err fp m s =
     (m fp = None \<and> \<not> exited s \<and> lockInv fp s \<and> profileMap s = m \<and>
      pprofCalls s = replicate (length (filter built (threads s))) fp \<and>
      (\<forall>t < length (threads s). failedOk i err (snd (threads s ! t))))"

text \<open>
  And while the build ends the process: no caller gets past the build, so none returns.
\<close>

definition exitInv :: "fileInfo \<Rightarrow> string \<Rightarrow> sys \<Rightarrow> bool" where
  "exitInv i fp s =
     (profileMap s fp = None \<and>
      (\<forall>t < length (threads s). fst (threads s ! t) = fp \<and> coldOk i (snd (threads s ! t))))"

text \<open>The callers \<open>k\<close>, ..., \<open>k + n - 1\<close> one after another, eight steps each.\<close>

definition seqRun :: "nat \<Rightarrow> nat \<Rightarrow> int \<Rightarrow> event list" where
  "seqRun k n now = concat (map (\<lambda>t. replicate 8 (Step t now)) [k..<k + n])"

subsection \<open>A small repository to run the definitions on\<close>

text \<open>
  The root \<open>r\<close> holds a profile that renders, one that does not, and a directory;
  paths are joined by concatenation. No file name is accepted as a flag of the driver.
\<close>

definition demoEnv :: env where
  "demoEnv =
     \<lparr>stat = (\<lambda>p. if p = ''r/report.prof'' then Inr \<lparr>modTime = 50, isDir = False\<rparr>
                  else if p = ''r/broken.prof'' then Inr \<lparr>modTime = 20, isDir = False\<rparr>
                  else if p = ''r/sub'' then Inr \<lparr>modTime = 10, isDir = True\<rparr>
                  else Inl (StatError p)),
      pprof = (\<lambda>p. if p = ''r/report.prof'' then Inr [''/'' \<mapsto> 1, ''/graph'' \<mapsto> 2]
                   else Inl (PProfError p)),
      flagAccepted = (\<lambda>x. False),
      joinPath = (\<lambda>a b. a @ b),
      repoPath = ''r''\<rparr>"

text \<open>
  The server started without \<open>-p\<close>: the root is \<open>.\<close>, and \<open>filepath.Join\<close> of \<open>.\<close> and
  \<open>/name\<close> is \<open>name\<close>. The root holds a profile whose name starts with a dash.
\<close>

definition dotEnv :: env where
  "dotEnv =
     \<lparr>stat = (\<lambda>p. if p = ''-x.prof'' then Inr \<lparr>modTime = 50, isDir = False\<rparr>
                  else Inl (StatError p)),
      pprof = (\<lambda>p. Inr [''/'' \<mapsto> 1]),
      flagAccepted = (\<lambda>x. False),
      joinPath = (\<lambda>a b. if a = ''.'' \<and> take 1 b = ''/'' then drop 1 b else a @ ''/'' @ b),
      repoPath = ''.''\<rparr>"

definition emptyState :: state where
  "emptyState = \<lparr>profileMap = Map.empty, pprofCalls = []\<rparr>"

definition oldEntry :: PProfHandler where
  "oldEntry = \<lparr>args = [''/'' \<mapsto> NavWrap ''/'' 9], time = 10\<rparr>"

definition warmEntry :: PProfHandler where
  "warmEntry = \<lparr>args = [''/'' \<mapsto> NavWrap ''/'' 9], time = 100\<rparr>"

definition cached :: "string \<Rightarrow> PProfHandler \<Rightarrow> state" where
  "cached fp ph = \<lparr>profileMap = [fp \<mapsto> ph], pprofCalls = []\<rparr>"

definition reportHandler :: "int \<Rightarrow> PProfHandler" where
  "reportHandler t = \<lparr>args = wrapHandlers [''/'' \<mapsto> 1, ''/graph'' \<mapsto> 2], time = t\<rparr>"

text \<open>Two callers: both miss, caller 0 takes the mutex and builds while caller 1 waits.\<close>

definition contendedRun :: "event list" where
  "contendedRun =
     [Step 0 100, Step 0 101, Step 0 102,
      Step 1 103, Step 1 104, Step 1 105,
      Step 0 106, Step 0 107, Step 0 108, Step 0 109,
      Step 1 110, Step 1 111, Step 1 112, Step 1 113, Step 1 114]"

text \<open>
  Caller 1 builds at clock reading 100; the file is written at 150; caller 0 then reads the
  file's time and misses the table; caller 1 stores and unlocks; caller 0 takes the mutex.
\<close>

definition staleRecheckRun :: "event list" where
  "staleRecheckRun =
     [Step 1 60, Step 1 61, Step 1 62, Step 1 63, Step 1 100,
      Touch ''r/report.prof'' 150,
      Step 0 160, Step 0 161,
      Step 1 170, Step 1 171,
      Step 0 180, Step 0 181, Step 0 182]"

definition earlyClockRun :: "event list" where
  "earlyClockRun = replicate 8 (Step 0 40) @ replicate 8 (Step 1 41)"

text \<open>
  Two callers over a stale entry: both see it stale and delete it, caller 0 rebuilds, and
  caller 1, which waited for the mutex, finds the new entry in its second lookup.
\<close>

definition staleWaiterRun :: "event list" where
  "staleWaiterRun =
     [Step 0 100, Step 0 101, Step 1 102, Step 1 103,
      Step 0 104, Step 1 105,
      Step 0 106, Step 0 107, Step 0 108, Step 0 109, Step 0 110,
      Step 1 111, Step 1 112, Step 1 113]"

text \<open>A system of callers over the table of a state, nobody holding the mutex.\<close>

definition sysOf :: "state \<Rightarrow> (string \<times> pc) list \<Rightarrow> sys" where
  "sysOf s ths =
     \<lparr>profileMap = profileMap s, pprofCalls = pprofCalls s, mu = None, threads = ths,
      exited = False\<rparr>"

section \<open>Facts about the definitions\<close>

subsection \<open>\<open>Cut\<close>\<close>

lemma hasPrefix_iff: "hasPrefix s p \<longleftrightarrow> (\<exists>r. s = p @ r)"
  by (induction s p rule: hasPrefix.induct) auto

lemma Cut_found: "Cut s sep = (b, a, True) \<Longrightarrow> s = b @ sep @ a"
proof (induction s arbitrary: b a)
  case Nil
  then show ?case by (simp split: if_splits)
next
  case (Cons c cs)
  show ?case
  proof (cases "hasPrefix (c # cs) sep")
    case True
    then obtain r where r: "c # cs = sep @ r" by (auto simp: hasPrefix_iff)
    from True Cons.prems have ba: "b = []" "a = drop (length sep) (c # cs)" by simp_all
    from r have "drop (length sep) (c # cs) = r" by simp
    with ba r show ?thesis by simp
  next
    case False
    with Cons.prems obtain b' where "Cut cs sep = (b', a, True)" "b = c # b'"
      by (auto split: prod.splits bool.splits)
    with Cons.IH show ?thesis by simp
  qed
qed

lemma Cut_missing: "Cut s sep = (b, a, False) \<Longrightarrow> b = s \<and> a = []"
  by (cases s) (auto split: if_splits prod.splits bool.splits)

lemma Cut_contains: "snd (snd (Cut (x @ sep @ y) sep))"
proof (induction x)
  case Nil
  have "hasPrefix (sep @ y) sep" by (simp add: hasPrefix_iff)
  then show ?case by (cases "sep @ y") auto
next
  case (Cons c x)
  then show ?case by (auto split: prod.splits bool.splits)
qed

lemma Cut_first: "Cut s sep = (b, a, True) \<Longrightarrow> s = x @ sep @ y \<Longrightarrow> length b \<le> length x"
proof (induction s arbitrary: b a x)
  case Nil
  then show ?case by (simp split: if_splits)
next
  case (Cons c cs)
  show ?case
  proof (cases "hasPrefix (c # cs) sep")
    case True
    with Cons.prems(1) have "b = []" by simp
    then show ?thesis by simp
  next
    case False
    with Cons.prems(1) obtain b' where b': "Cut cs sep = (b', a, True)" "b = c # b'"
      by (auto split: prod.splits bool.splits)
    from False Cons.prems(2) have "x \<noteq> []" by (auto simp: hasPrefix_iff)
    then obtain x' where x': "x = c # x'" "cs = x' @ sep @ y"
      using Cons.prems(2) by (cases x) auto
    from Cons.IH [OF b'(1) x'(2)] b'(2) x'(1) show ?thesis by simp
  qed
qed

subsection \<open>The two branches of the router\<close>

lemma route_marker:
  "Cut path ''/ui'' = (before, after, True) \<Longrightarrow>
   route e now path s =
     (case getHandler e now (joinPath e (repoPath e) before) s of
        (ProcessExit, s') \<Rightarrow> ([OsExit], s')
      | (Returns (Inl err), s') \<Rightarrow> ([AbortWithError 500 err], s')
      | (Returns (Inr ph), s') \<Rightarrow>
          (case args ph (if after = [] then ''/'' else after) of
             Some h \<Rightarrow> ([ServeHTTP h], s')
           | None \<Rightarrow> ([], s')))"
  by (simp add: route_def)

lemma route_no_marker:
  "Cut path ''/ui'' = (before, after, False) \<Longrightarrow>
   route e now path s =
     (case stat e (joinPath e (repoPath e) path) of
        Inl err \<Rightarrow> ([WriteHeader 404], s)
      | Inr info \<Rightarrow>
          if \<not> isDir info
          then (case getHandler e now (joinPath e (repoPath e) path) s of
                  (ProcessExit, s') \<Rightarrow> ([OsExit], s')
                | (Returns (Inl err), s') \<Rightarrow> ([AbortWithError 500 err], s')
                | (Returns (Inr ph), s') \<Rightarrow> ([Redirect 302 (path @ ''/ui/''), FileServer], s'))
          else ([FileServer], s))"
  using Cut_missing [of path "''/ui''" before after] by (simp add: route_def)

lemma route_marker_no_file_server:
  "Cut path ''/ui'' = (before, after, True) \<Longrightarrow> FileServer \<notin> set (fst (route e now path s))"
  by (simp add: route_marker split: prod.splits call.splits sum.splits option.splits)

subsection \<open>The saturating age\<close>

lemma since_gt: "profileTTL < since now t \<longleftrightarrow> profileTTL < now - t"
  by (simp add: since_def profileTTL_def maxDuration_def minDuration_def)

subsection \<open>The build\<close>

lemma buildHandler_exits: "driverPProf e fp = ProcessExit \<Longrightarrow> buildHandler e now fp = ProcessExit"
  by (simp add: buildHandler_def)

lemma buildHandler_fails:
  "driverPProf e fp = Returns (Inl err) \<Longrightarrow> buildHandler e now fp = Returns (Inl err)"
  by (simp add: buildHandler_def)

lemma buildHandler_renders:
  "driverPProf e fp = Returns (Inr hs) \<Longrightarrow>
   buildHandler e now fp = Returns (Inr \<lparr>args = wrapHandlers hs, time = now\<rparr>)"
  by (simp add: buildHandler_def)

lemma getHandler_cold:
  "stat e fp = Inr info \<Longrightarrow> profileMap s fp = None \<Longrightarrow>
   getHandler e now fp s =
     (case driverPProf e fp of
        ProcessExit \<Rightarrow> (ProcessExit, s\<lparr>pprofCalls := pprofCalls s @ [fp]\<rparr>)
      | Returns (Inl err) \<Rightarrow> (Returns (Inl err), s\<lparr>pprofCalls := pprofCalls s @ [fp]\<rparr>)
      | Returns (Inr hs) \<Rightarrow>
          (Returns (Inr \<lparr>args = wrapHandlers hs, time = now\<rparr>),
           s\<lparr>profileMap := (profileMap s)(fp \<mapsto> \<lparr>args = wrapHandlers hs, time = now\<rparr>),
             pprofCalls := pprofCalls s @ [fp]\<rparr>))"
  by (simp add: getHandler_def getHandlerLocked_def buildHandler_def
      split: call.splits sum.splits)

subsection \<open>The small repository\<close>

lemmas demo_defs = demoEnv_def emptyState_def oldEntry_def warmEntry_def cached_def
  getHandler_def getHandlerLocked_def buildHandler_def driverPProf_def parseExits_def
  wrapHandlers_def

lemmas run_defs = step_def setPc_def callers_def sysOf_def allReturned_def

lemma driver_report:
  "driverPProf demoEnv ''r/report.prof'' = Returns (Inr [''/'' \<mapsto> 1, ''/graph'' \<mapsto> 2])"
  by (simp add: driverPProf_def parseExits_def demoEnv_def)

lemma driver_broken:
  "driverPProf demoEnv ''r/broken.prof'' = Returns (Inl (PProfError ''r/broken.prof''))"
  by (simp add: driverPProf_def parseExits_def demoEnv_def)

lemma build_report: "buildHandler demoEnv now ''r/report.prof'' = Returns (Inr (reportHandler now))"
  by (simp add: buildHandler_renders [OF driver_report] reportHandler_def)

lemma build_broken:
  "buildHandler demoEnv now ''r/broken.prof'' = Returns (Inl (PProfError ''r/broken.prof''))"
  by (simp add: buildHandler_fails [OF driver_broken])

lemma stat_report: "stat demoEnv ''r/report.prof'' = Inr \<lparr>modTime = 50, isDir = False\<rparr>"
  by (simp add: demoEnv_def)

lemma stat_broken: "stat demoEnv ''r/broken.prof'' = Inr \<lparr>modTime = 20, isDir = False\<rparr>"
  by (simp add: demoEnv_def)

lemma getHandler_report_cold:
  "getHandler demoEnv 100 (joinPath demoEnv (repoPath demoEnv) ''/report.prof'') emptyState =
     (Returns (Inr (reportHandler 100)),
      \<lparr>profileMap = [''r/report.prof'' \<mapsto> reportHandler 100],
       pprofCalls = [''r/report.prof'']\<rparr>)"
  by (simp add: demoEnv_def emptyState_def getHandler_def getHandlerLocked_def buildHandler_def
      driverPProf_def parseExits_def reportHandler_def)

section \<open>Routing\<close>

text \<open>
  Claim C3. Routing \<open>/report.prof/ui/graph\<close> gives the resource \<open>/report.prof\<close> and the
  sub-route \<open>/graph\<close>; routing \<open>/report.prof/ui\<close> gives the same resource and an empty
  suffix, which is looked up as \<open>/\<close>. The first two conjuncts are the cut itself, the last
  two say which file \<open>getHandler\<close> is asked for and which key of the handler table is looked
  up.
\<close>

theorem routes_report_paths:
  "Cut ''/report.prof/ui/graph'' ''/ui'' = (''/report.prof'', ''/graph'', True) \<and>
   Cut ''/report.prof/ui'' ''/ui'' = (''/report.prof'', [], True) \<and>
   route e now ''/report.prof/ui/graph'' s =
     (case getHandler e now (joinPath e (repoPath e) ''/report.prof'') s of
        (ProcessExit, s') \<Rightarrow> ([OsExit], s')
      | (Returns (Inl err), s') \<Rightarrow> ([AbortWithError 500 err], s')
      | (Returns (Inr ph), s') \<Rightarrow>
          (case args ph ''/graph'' of Some h \<Rightarrow> ([ServeHTTP h], s') | None \<Rightarrow> ([], s'))) \<and>
   route e now ''/report.prof/ui'' s =
     (case getHandler e now (joinPath e (repoPath e) ''/report.prof'') s of
        (ProcessExit, s') \<Rightarrow> ([OsExit], s')
      | (Returns (Inl err), s') \<Rightarrow> ([AbortWithError 500 err], s')
      | (Returns (Inr ph), s') \<Rightarrow>
          (case args ph ''/'' of Some h \<Rightarrow> ([ServeHTTP h], s') | None \<Rightarrow> ([], s')))"
proof -
  have g: "Cut ''/report.prof/ui/graph'' ''/ui'' = (''/report.prof'', ''/graph'', True)"
    by simp
  have u: "Cut ''/report.prof/ui'' ''/ui'' = (''/report.prof'', [], True)"
    by simp
  show ?thesis
    using route_marker [OF g, of e now s] route_marker [OF u, of e now s] g u by simp
qed

text \<open>
  Claim C9. The marker is found by a substring cut. Whatever stands before and after an
  occurrence of the three characters \<open>/ui\<close>, the cut succeeds, it splits the path around an
  occurrence that starts no later than the given one (so around the first), and the request
  never reaches the file server. In particular \<open>/uint.prof\<close> is split into the empty
  resource and the sub-route \<open>nt.prof\<close> and goes through the cache branch.
\<close>

theorem marker_is_substring_cut:
  "(\<exists>before after.
      Cut (x @ ''/ui'' @ y) ''/ui'' = (before, after, True) \<and>
      x @ ''/ui'' @ y = before @ ''/ui'' @ after \<and>
      length before \<le> length x) \<and>
   FileServer \<notin> set (fst (route e now (x @ ''/ui'' @ y) s)) \<and>
   Cut ''/uint.prof'' ''/ui'' = ([], ''nt.prof'', True) \<and>
   route e now ''/uint.prof'' s =
     (case getHandler e now (joinPath e (repoPath e) []) s of
        (ProcessExit, s') \<Rightarrow> ([OsExit], s')
      | (Returns (Inl err), s') \<Rightarrow> ([AbortWithError 500 err], s')
      | (Returns (Inr ph), s') \<Rightarrow>
          (case args ph ''nt.prof'' of Some h \<Rightarrow> ([ServeHTTP h], s') | None \<Rightarrow> ([], s')))"
proof -
  obtain before after where c: "Cut (x @ ''/ui'' @ y) ''/ui'' = (before, after, True)"
    using Cut_contains [of x "''/ui''" y] by (cases "Cut (x @ ''/ui'' @ y) ''/ui''") auto
  have split: "x @ ''/ui'' @ y = before @ ''/ui'' @ after"
    by (rule Cut_found [OF c])
  have first: "length before \<le> length x"
    by (rule Cut_first [OF c refl])
  have nofs: "FileServer \<notin> set (fst (route e now (x @ ''/ui'' @ y) s))"
    by (rule route_marker_no_file_server [OF c])
  have u: "Cut ''/uint.prof'' ''/ui'' = ([], ''nt.prof'', True)"
    by simp
  from c split first have "\<exists>before after.
      Cut (x @ ''/ui'' @ y) ''/ui'' = (before, after, True) \<and>
      x @ ''/ui'' @ y = before @ ''/ui'' @ after \<and>
      length before \<le> length x"
    by blast
  then show ?thesis
    using nofs u route_marker [OF u, of e now s] by simp
qed

text \<open>
  A request path without the marker that names an existing file which is not a directory
  makes the router call \<open>getHandler\<close> for that file. When the call returns an error the
  response is the internal error 500 and nothing else; when it returns a handler set the
  first thing written is the redirect (302) to the request path followed by \<open>/ui/\<close>; and
  when the process exits in the build nothing is written at all. From an empty slot the
  call is a build: the renderer is called for the file.
\<close>

lemma file_request_builds_then_redirects:
  assumes "\<not> snd (snd (Cut path ''/ui''))"
    and "stat e (joinPath e (repoPath e) path) = Inr info"
    and "\<not> isDir info"
  shows "route e now path s =
           (case getHandler e now (joinPath e (repoPath e) path) s of
              (ProcessExit, s') \<Rightarrow> ([OsExit], s')
            | (Returns (Inl err), s') \<Rightarrow> ([AbortWithError 500 err], s')
            | (Returns (Inr ph), s') \<Rightarrow> ([Redirect 302 (path @ ''/ui/''), FileServer], s'))"
    and "profileMap s (joinPath e (repoPath e) path) = None \<Longrightarrow>
         pprofCalls (snd (route e now path s)) =
           pprofCalls s @ [joinPath e (repoPath e) path]"
proof -
  obtain b a where "Cut path ''/ui'' = (b, a, False)"
    using assms(1) by (cases "Cut path ''/ui''") auto
  from route_no_marker [OF this, of e now s] assms(2,3)
  show r: "route e now path s =
           (case getHandler e now (joinPath e (repoPath e) path) s of
              (ProcessExit, s') \<Rightarrow> ([OsExit], s')
            | (Returns (Inl err), s') \<Rightarrow> ([AbortWithError 500 err], s')
            | (Returns (Inr ph), s') \<Rightarrow> ([Redirect 302 (path @ ''/ui/''), FileServer], s'))"
    by simp
  show "pprofCalls (snd (route e now path s)) = pprofCalls s @ [joinPath e (repoPath e) path]"
    if "profileMap s (joinPath e (repoPath e) path) = None"
    unfolding r getHandler_cold [OF assms(2) that]
    by (simp split: call.splits sum.splits)
qed

lemma failed_file_request_answers_500:
  "route demoEnv 100 ''/broken.prof'' emptyState =
     ([AbortWithError 500 (PProfError ''r/broken.prof'')],
      \<lparr>profileMap = Map.empty, pprofCalls = [''r/broken.prof'']\<rparr>)"
  by (simp add: route_def demo_defs)

lemma file_request_redirects:
  "route demoEnv 100 ''/report.prof'' emptyState =
     ([Redirect 302 ''/report.prof/ui/'', FileServer],
      \<lparr>profileMap = [''r/report.prof'' \<mapsto> reportHandler 100],
       pprofCalls = [''r/report.prof'']\<rparr>)"
  by (simp add: route_def demo_defs reportHandler_def)

text \<open>
  Claim C7, evaluated where the code departs from it. The server runs with the default root
  \<open>.\<close>, which holds a regular file named \<open>-x.prof\<close>. The request path \<open>/-x.prof\<close> has no
  marker and its stat succeeds, so the router calls \<open>getHandler\<close> on the joined path
  \<open>-x.prof\<close>. The build hands that path to the flag set as the last argument; it is read as
  a flag that nobody registered, and the process exits: the request gets neither the
  redirect nor the 500.
\<close>

theorem dash_file_request_exits:
  "\<not> snd (snd (Cut ''/-x.prof'' ''/ui'')) \<and>
   joinPath dotEnv (repoPath dotEnv) ''/-x.prof'' = ''-x.prof'' \<and>
   stat dotEnv ''-x.prof'' = Inr \<lparr>modTime = 50, isDir = False\<rparr> \<and>
   parseExits dotEnv ''-x.prof'' \<and>
   route dotEnv 100 ''/-x.prof'' emptyState =
     ([OsExit], \<lparr>profileMap = Map.empty, pprofCalls = [''-x.prof'']\<rparr>)"
  by (simp add: route_def dotEnv_def emptyState_def getHandler_def getHandlerLocked_def
      buildHandler_def driverPProf_def parseExits_def)

text \<open>
  Claim C10. In the branch without the marker the handler does not return after the
  redirect: whenever the stat succeeds and the request is not aborted (the path is a
  directory, or it is a file and \<open>getHandler\<close> succeeded), the file server is invoked last;
  for a directory it is the only action, for a file it follows the redirect.
\<close>

theorem file_server_runs_after_redirect:
  assumes "\<not> snd (snd (Cut path ''/ui''))"
    and "stat e (joinPath e (repoPath e) path) = Inr info"
    and "isDir info \<or>
         fst (getHandler e now (joinPath e (repoPath e) path) s) = Returns (Inr ph)"
  shows "last (fst (route e now path s)) = FileServer \<and>
         (isDir info \<longrightarrow> route e now path s = ([FileServer], s)) \<and>
         (\<not> isDir info \<longrightarrow>
            fst (route e now path s) = [Redirect 302 (path @ ''/ui/''), FileServer])"
proof -
  obtain b a where "Cut path ''/ui'' = (b, a, False)"
    using assms(1) by (cases "Cut path ''/ui''") auto
  from route_no_marker [OF this, of e now s] assms(2,3)
  show ?thesis by (auto split: prod.splits call.splits sum.splits)
qed

theorem file_server_runs_after_redirect_witness:
  "\<not> snd (snd (Cut ''/report.prof'' ''/ui'')) \<and>
   fst (route demoEnv 100 ''/report.prof'' emptyState) =
     [Redirect 302 ''/report.prof/ui/'', FileServer] \<and>
   \<not> snd (snd (Cut ''/sub'' ''/ui'')) \<and>
   route demoEnv 100 ''/sub'' emptyState = ([FileServer], emptyState)"
proof -
  have c: "\<not> snd (snd (Cut ''/report.prof'' ''/ui''))"
    by simp
  have f: "stat demoEnv (joinPath demoEnv (repoPath demoEnv) ''/report.prof'') =
             Inr \<lparr>modTime = 50, isDir = False\<rparr>"
    by (simp add: demoEnv_def)
  have g: "isDir \<lparr>modTime = 50, isDir = False\<rparr> \<or>
      fst (getHandler demoEnv 100 (joinPath demoEnv (repoPath demoEnv) ''/report.prof'')
             emptyState) = Returns (Inr (reportHandler 100))"
    by (simp add: getHandler_report_cold)
  have c': "\<not> snd (snd (Cut ''/sub'' ''/ui''))"
    by simp
  have f': "stat demoEnv (joinPath demoEnv (repoPath demoEnv) ''/sub'') =
             Inr \<lparr>modTime = 10, isDir = True\<rparr>"
    by (simp add: demoEnv_def)
  have g': "isDir \<lparr>modTime = 10, isDir = True\<rparr> \<or>
      fst (getHandler demoEnv 100 (joinPath demoEnv (repoPath demoEnv) ''/sub'') emptyState) =
        Returns (Inr oldEntry)"
    by simp
  show ?thesis
    using c c' file_server_runs_after_redirect [OF c f g]
      file_server_runs_after_redirect [OF c' f' g']
    by simp
qed

text \<open>
  Claim C8 fails as stated: with the handler table of the small repository, the sub-route
  \<open>/graph\<close> is served while \<open>/graph/\<close> and \<open>//graph\<close>, which differ from it by a
  trailing and by a repeated slash, find no handler.
\<close>

theorem slashes_not_normalized:
  "fst (route demoEnv 100 ''/report.prof/ui/graph'' emptyState) =
     [ServeHTTP (NavWrap ''/graph'' 2)] \<and>
   fst (route demoEnv 100 ''/report.prof/ui/graph/'' emptyState) = [] \<and>
   fst (route demoEnv 100 ''/report.prof/ui//graph'' emptyState) = []"
  by (simp add: route_def demo_defs)

text \<open>
  Claim C8, amended. For a request path containing the marker whose \<open>getHandler\<close> call
  succeeds, the handler table is looked up at the exact string after the marker, with one
  normalisation only: the empty string is looked up as \<open>/\<close>. A hit is served by that
  handler and a miss writes nothing.
\<close>

theorem subroute_lookup_exact:
  assumes "Cut path ''/ui'' = (before, after, True)"
    and "getHandler e now (joinPath e (repoPath e) before) s = (Returns (Inr ph), s')"
  shows "route e now path s =
           (case args ph (if after = [] then ''/'' else after) of
              Some h \<Rightarrow> ([ServeHTTP h], s')
            | None \<Rightarrow> ([], s'))"
  using route_marker [OF assms(1), of e now s] assms(2) by simp

theorem subroute_lookup_exact_witness:
  "Cut ''/report.prof/ui'' ''/ui'' = (''/report.prof'', [], True) \<and>
   Cut ''/report.prof/ui/'' ''/ui'' = (''/report.prof'', ''/'', True) \<and>
   fst (route demoEnv 100 ''/report.prof/ui'' emptyState) = [ServeHTTP (NavWrap ''/'' 1)] \<and>
   fst (route demoEnv 100 ''/report.prof/ui/'' emptyState) = [ServeHTTP (NavWrap ''/'' 1)]"
proof -
  have c: "Cut ''/report.prof/ui'' ''/ui'' = (''/report.prof'', [], True)"
    by simp
  have c': "Cut ''/report.prof/ui/'' ''/ui'' = (''/report.prof'', ''/'', True)"
    by simp
  show ?thesis
    using c c' subroute_lookup_exact [OF c getHandler_report_cold]
      subroute_lookup_exact [OF c' getHandler_report_cold]
    by (simp add: reportHandler_def wrapHandlers_def)
qed

section \<open>The evictor\<close>

text \<open>
  Claim C6. After one sweep at clock reading \<open>now\<close>, an entry whose age \<open>now - time\<close> is
  over the TTL of 30 minutes (1800000000000 ns) is absent, and an entry whose age is not over
  it is still there, unchanged. The saturation of the 64-bit duration does not change the
  comparison.
\<close>

theorem sweep_removes_exactly_expired:
  assumes "profileMap s key = Some ph"
  shows "(profileTTL < now - time ph \<longrightarrow> profileMap (cleanupSweep now s) key = None) \<and>
         (now - time ph \<le> profileTTL \<longrightarrow> profileMap (cleanupSweep now s) key = Some ph) \<and>
         profileTTL = 1800000000000"
  using assms by (simp add: cleanupSweep_def since_gt) (simp add: profileTTL_def)

theorem sweep_removes_exactly_expired_witness:
  "profileMap (cached ''a'' oldEntry) ''a'' = Some oldEntry \<and>
   profileMap (cleanupSweep 2000000000000 (cached ''a'' oldEntry)) ''a'' = None \<and>
   profileMap (cleanupSweep 1000000000000 (cached ''a'' oldEntry)) ''a'' = Some oldEntry"
proof -
  have h: "profileMap (cached ''a'' oldEntry) ''a'' = Some oldEntry"
    by (simp add: cached_def)
  show ?thesis
    using h sweep_removes_exactly_expired [OF h, of 2000000000000]
      sweep_removes_exactly_expired [OF h, of 1000000000000]
    by (simp add: oldEntry_def)
qed

lemma sweep_keeps_absent: "profileMap s key = None \<Longrightarrow> profileMap (cleanupSweep now s) key = None"
  by (simp add: cleanupSweep_def)

section \<open>One caller of \<open>getHandler\<close>\<close>


text \<open>
  The rebuild after a stale entry need not be made by the caller that saw it stale. Two
  callers over an entry loaded at 10 for a file written at 50: both see it stale and delete
  it, caller 0 rebuilds, and caller 1 returns caller 0's entry from its second lookup. The
  renderer is called once for the two calls.
\<close>

lemma waiter_makes_no_rebuild:
  "threads (run demoEnv staleWaiterRun
      (sysOf (cached ''r/report.prof'' oldEntry)
         [(''r/report.prof'', AtStat), (''r/report.prof'', AtStat)])) =
     [(''r/report.prof'', Done (Inr (reportHandler 108))),
      (''r/report.prof'', Done (Inr (reportHandler 108)))] \<and>
   pprofCalls (run demoEnv staleWaiterRun
      (sysOf (cached ''r/report.prof'' oldEntry)
         [(''r/report.prof'', AtStat), (''r/report.prof'', AtStat)])) = [''r/report.prof'']"
  by (simp add: staleWaiterRun_def run_defs cached_def oldEntry_def stat_report build_report)



text \<open>
  Claim C5 fails as stated: a failed call can change the table. Here the key holds an entry
  loaded at 10 for a file written at 20; the call discards the stale entry, the renderer
  fails, and the key is left without an entry.
\<close>

theorem failed_build_drops_stale_entry:
  "stat demoEnv ''r/broken.prof'' = Inr \<lparr>modTime = 20, isDir = False\<rparr> \<and>
   driverPProf demoEnv ''r/broken.prof'' = Returns (Inl (PProfError ''r/broken.prof'')) \<and>
   profileMap (cached ''r/broken.prof'' oldEntry) ''r/broken.prof'' = Some oldEntry \<and>
   fst (getHandler demoEnv 100 ''r/broken.prof'' (cached ''r/broken.prof'' oldEntry)) =
     Returns (Inl (PProfError ''r/broken.prof'')) \<and>
   profileMap (snd (getHandler demoEnv 100 ''r/broken.prof'' (cached ''r/broken.prof'' oldEntry)))
     ''r/broken.prof'' = None"
  by (simp add: demo_defs)

text \<open>
  Claim C5, amended. When the renderer fails during a construction for a key (the file
  exists and the key has no entry or a stale one), \<open>getHandler\<close> returns that error and
  stores nothing: afterwards the key has no entry and every other key is as before, so from
  an empty slot the table is unchanged. A following call for the same key calls the renderer
  again.
\<close>

theorem failed_build_stores_nothing:
  assumes "stat e fp = Inr info"
    and "driverPProf e fp = Returns (Inl err)"
    and "case profileMap s fp of None \<Rightarrow> True | Some ph \<Rightarrow> time ph < modTime info"
  shows "getHandler e now fp s =
           (Returns (Inl err), s\<lparr>profileMap := (profileMap s)(fp := None),
                                  pprofCalls := pprofCalls s @ [fp]\<rparr>) \<and>
         (profileMap s fp = None \<longrightarrow>
            profileMap (snd (getHandler e now fp s)) = profileMap s) \<and>
         getHandler e now' fp (snd (getHandler e now fp s)) =
           (Returns (Inl err), s\<lparr>profileMap := (profileMap s)(fp := None),
                                  pprofCalls := pprofCalls s @ [fp, fp]\<rparr>)"
proof -
  have b: "buildHandler e t fp = Returns (Inl err)" for t
    by (rule buildHandler_fails [OF assms(2)])
  have same: "profileMap s fp = None \<Longrightarrow> (profileMap s)(fp := None) = profileMap s"
    by (rule ext) simp
  have one: "getHandler e now fp s =
           (Returns (Inl err), s\<lparr>profileMap := (profileMap s)(fp := None),
                                  pprofCalls := pprofCalls s @ [fp]\<rparr>)"
  proof (cases "profileMap s fp")
    case None
    with assms(1) b same show ?thesis
      by (simp add: getHandler_def getHandlerLocked_def)
  next
    case (Some ph)
    with assms(1,3) b show ?thesis
      by (simp add: getHandler_def getHandlerLocked_def)
  qed
  have two: "getHandler e now' fp (s\<lparr>profileMap := (profileMap s)(fp := None),
                        pprofCalls := pprofCalls s @ [fp]\<rparr>) =
           (Returns (Inl err), s\<lparr>profileMap := (profileMap s)(fp := None),
                                  pprofCalls := pprofCalls s @ [fp, fp]\<rparr>)"
    using assms(1) b by (simp add: getHandler_def getHandlerLocked_def)
  show ?thesis using one two same by simp
qed

theorem failed_build_stores_nothing_witness:
  "stat demoEnv ''r/broken.prof'' = Inr \<lparr>modTime = 20, isDir = False\<rparr> \<and>
   driverPProf demoEnv ''r/broken.prof'' = Returns (Inl (PProfError ''r/broken.prof'')) \<and>
   profileMap emptyState ''r/broken.prof'' = None \<and>
   fst (getHandler demoEnv 100 ''r/broken.prof'' emptyState) =
     Returns (Inl (PProfError ''r/broken.prof'')) \<and>
   profileMap (snd (getHandler demoEnv 100 ''r/broken.prof'' emptyState)) = profileMap emptyState \<and>
   pprofCalls (snd (getHandler demoEnv 101 ''r/broken.prof''
      (snd (getHandler demoEnv 100 ''r/broken.prof'' emptyState)))) =
     [''r/broken.prof'', ''r/broken.prof'']"
proof -
  have n: "profileMap emptyState ''r/broken.prof'' = None"
    by (simp add: emptyState_def)
  have c: "case profileMap emptyState ''r/broken.prof'' of None \<Rightarrow> True
           | Some ph \<Rightarrow> time ph < modTime \<lparr>modTime = 20, isDir = False\<rparr>"
    by (simp add: emptyState_def)
  show ?thesis
    using stat_broken driver_broken n
      failed_build_stores_nothing [OF stat_broken driver_broken c, of 100 101]
    by (auto simp: emptyState_def)
qed

section \<open>Callers running together\<close>

subsection \<open>One caller alone is \<open>getHandler\<close>\<close>

text \<open>
  A thread stepped from its start to its end over a free mutex, the others standing still,
  returns what \<open>getHandler\<close> returns and leaves the table and the trace that
  \<open>getHandler\<close> leaves.
\<close>

lemma run_replicate_Step:
  "run e (replicate j (Step t now) @ evs) s = run e evs (run e (replicate j (Step t now)) s)"
  by (induction j arbitrary: s) simp_all

lemma alone_at:
  assumes "length xs = k"
  shows "run e (replicate 8 (Step k now))
           \<lparr>profileMap = m, pprofCalls = c, mu = None, threads = xs @ (fp, AtStat) # ys,
            exited = False\<rparr> =
         (case getHandler e now fp \<lparr>profileMap = m, pprofCalls = c\<rparr> of
            (ProcessExit, q) \<Rightarrow>
              \<lparr>profileMap = profileMap q, pprofCalls = pprofCalls q, mu = Some k,
               threads = xs @ (fp, AtBuild) # ys, exited = True\<rparr>
          | (Returns r, q) \<Rightarrow>
              \<lparr>profileMap = profileMap q, pprofCalls = pprofCalls q, mu = None,
               threads = xs @ (fp, Done r) # ys, exited = False\<rparr>)"
proof -
  have k: "k = length xs" using assms by simp
  show ?thesis
  proof (cases "stat e fp")
    case (Inl err)
    then show ?thesis
      by (simp add: k eval_nat_numeral step_def setPc_def getHandler_def)
  next
    case (Inr info)
    note st = this
    consider (exit) "buildHandler e now fp = ProcessExit"
      | (fails) err where "buildHandler e now fp = Returns (Inl err)"
      | (renders) v where "buildHandler e now fp = Returns (Inr v)"
      by (metis call.exhaust sum.exhaust)
    then show ?thesis
    proof cases
      case exit
      with st show ?thesis
        by (cases "m fp"; cases "time (the (m fp)) < modTime info")
          (simp_all add: k eval_nat_numeral step_def setPc_def getHandler_def
            getHandlerLocked_def)
    next
      case fails
      with st show ?thesis
        by (cases "m fp"; cases "time (the (m fp)) < modTime info")
          (simp_all add: k eval_nat_numeral step_def setPc_def getHandler_def
            getHandlerLocked_def)
    next
      case renders
      with st show ?thesis
        by (cases "m fp"; cases "time (the (m fp)) < modTime info")
          (simp_all add: k eval_nat_numeral step_def setPc_def getHandler_def
            getHandlerLocked_def)
    qed
  qed
qed

subsection \<open>The invariant is kept\<close>

lemma length_threads_step: "length (threads (step e now t s)) = length (threads s)"
  by (auto simp: step_def setPc_def
      split: prod.splits pc.splits call.splits sum.splits option.splits)

lemma length_threads_run: "length (threads (run e evs s)) = length (threads s)"
proof (induction evs arbitrary: e s)
  case Nil
  then show ?case by simp
next
  case (Cons ev evs)
  then show ?case by (cases ev) (simp_all add: length_threads_step)
qed

lemma cold_to_built: "coldOk i p \<Longrightarrow> \<not> holdsMu p \<Longrightarrow> builtOk i ph p"
  by (cases p) auto

lemma built_to_stored: "builtOk i ph p \<Longrightarrow> \<not> holdsMu p \<Longrightarrow> storedOk i ph p"
  by (cases p) auto

lemma lockInv_at: "lockInv fp s \<Longrightarrow> t < length (threads s) \<Longrightarrow>
    fst (threads s ! t) = fp \<and> holdsMu (snd (threads s ! t)) = (mu s = Some t)"
  by (simp add: lockInv_def)

lemma lockInv_others: "lockInv fp s \<Longrightarrow> mu s = Some t \<Longrightarrow> u < length (threads s) \<Longrightarrow> u \<noteq> t \<Longrightarrow>
    \<not> holdsMu (snd (threads s ! u))"
  by (simp add: lockInv_def)

lemma cold_step:
  assumes "stat e fp = Inr i" "driverPProf e fp = Returns (Inr hs)" "modTime i \<le> now"
    and "m fp = None" "\<not> exited s" "lockInv fp s" "phaseCold i m s"
  shows "singleFlightInv i hs fp m (step e now t s)"
proof (cases "t < length (threads s)")
  case False
  with assms show ?thesis by (simp add: step_def singleFlightInv_def)
next
  case True
  with assms(6) obtain p where th: "threads s ! t = (fp, p)"
    by (cases "threads s ! t") (auto simp: lockInv_def)
  from lockInv_at [OF assms(6) True] th have ht: "holdsMu p = (mu s = Some t)"
    by simp
  from assms(7) True th have cp: "coldOk i p"
    by (auto simp: phaseCold_def)
  from assms(4,7) have none: "profileMap s fp = None"
    by (simp add: phaseCold_def)
  show ?thesis
  proof (cases p)
    case AtStat
    with assms True th ht show ?thesis
      by (auto simp: step_def setPc_def singleFlightInv_def lockInv_def phaseCold_def
          nth_list_update)
  next
    case (AtLoad j)
    with assms True th ht cp none show ?thesis
      by (auto simp: step_def setPc_def singleFlightInv_def lockInv_def phaseCold_def
          nth_list_update)
  next
    case AtLock
    with assms True th ht show ?thesis
      by (auto simp: step_def setPc_def singleFlightInv_def lockInv_def phaseCold_def
          nth_list_update split: option.splits)
  next
    case AtRecheck
    with assms True th ht none show ?thesis
      by (auto simp: step_def setPc_def singleFlightInv_def lockInv_def phaseCold_def
          nth_list_update)
  next
    case AtBuild
    let ?ph = "\<lparr>args = wrapHandlers hs, time = now\<rparr>"
    let ?s = "setPc t (AtStore ?ph) (s\<lparr>pprofCalls := pprofCalls s @ [fp]\<rparr>)"
    from AtBuild assms(5) True th have st: "step e now t s = ?s"
      by (simp add: step_def buildHandler_renders [OF assms(2)])
    from AtBuild ht have mt: "mu s = Some t" by simp
    have l: "lockInv fp ?s"
      using assms(6) True th AtBuild mt
      by (auto simp: lockInv_def setPc_def nth_list_update)
    have h: "handlerOk i hs ?ph"
      using assms(3) by (simp add: handlerOk_def)
    have b: "phaseBuilt i fp m ?ph ?s"
      using assms(7) mt True lockInv_others [OF assms(6) mt]
      by (auto simp: phaseBuilt_def phaseCold_def setPc_def nth_list_update intro: cold_to_built)
    have x: "\<not> exited ?s"
      using assms(5) by (simp add: setPc_def)
    from assms(4) x l h b show ?thesis
      unfolding st singleFlightInv_def by blast
  qed (use cp in simp_all)
qed

lemma built_step:
  assumes "stat e fp = Inr i" "handlerOk i hs ph"
    and "m fp = None" "\<not> exited s" "lockInv fp s" "phaseBuilt i fp m ph s"
  shows "singleFlightInv i hs fp m (step e now t s)"
proof (cases "t < length (threads s)")
  case False
  with assms show ?thesis by (auto simp: step_def singleFlightInv_def)
next
  case True
  with assms(5) obtain p where th: "threads s ! t = (fp, p)"
    by (cases "threads s ! t") (auto simp: lockInv_def)
  from lockInv_at [OF assms(5) True] th have ht: "holdsMu p = (mu s = Some t)"
    by simp
  from assms(6) True th have bp: "builtOk i ph p"
    by (auto simp: phaseBuilt_def)
  from assms(6) obtain holder where hd: "mu s = Some holder"
    by (auto simp: phaseBuilt_def)
  from assms(3,6) have none: "profileMap s fp = None"
    by (simp add: phaseBuilt_def)
  show ?thesis
  proof (cases p)
    case AtStat
    with assms True th ht show ?thesis
      by (auto simp: step_def setPc_def singleFlightInv_def lockInv_def phaseBuilt_def
          nth_list_update)
  next
    case (AtLoad j)
    with assms True th ht bp none show ?thesis
      by (auto simp: step_def setPc_def singleFlightInv_def lockInv_def phaseBuilt_def
          nth_list_update)
  next
    case AtLock
    with assms True th hd show ?thesis
      by (auto simp: step_def singleFlightInv_def)
  next
    case (AtStore v)
    with bp have v: "v = ph" by simp
    let ?s = "setPc t (AtUnlock (Inr ph)) (s\<lparr>profileMap := (profileMap s)(fp \<mapsto> ph)\<rparr>)"
    from AtStore v assms(4) True th have st: "step e now t s = ?s"
      by (simp add: step_def)
    from AtStore ht have mt: "mu s = Some t" by simp
    have l: "lockInv fp ?s"
      using assms(5) True th AtStore mt
      by (auto simp: lockInv_def setPc_def nth_list_update)
    have c: "phaseStored i fp m ph ?s"
      using assms(6) mt True lockInv_others [OF assms(5) mt]
      by (auto simp: phaseBuilt_def phaseStored_def setPc_def nth_list_update
          intro: built_to_stored)
    have x: "\<not> exited ?s"
      using assms(4) by (simp add: setPc_def)
    from assms(2,3) x l c show ?thesis
      unfolding st singleFlightInv_def by blast
  qed (use bp in simp_all)
qed

lemma stored_step:
  assumes "stat e fp = Inr i" "handlerOk i hs ph"
    and "m fp = None" "\<not> exited s" "lockInv fp s" "phaseStored i fp m ph s"
  shows "singleFlightInv i hs fp m (step e now t s)"
proof (cases "t < length (threads s)")
  case False
  with assms show ?thesis by (auto simp: step_def singleFlightInv_def)
next
  case True
  with assms(5) obtain p where th: "threads s ! t = (fp, p)"
    by (cases "threads s ! t") (auto simp: lockInv_def)
  from lockInv_at [OF assms(5) True] th have ht: "holdsMu p = (mu s = Some t)"
    by simp
  from assms(6) True th have sp: "storedOk i ph p"
    by (auto simp: phaseStored_def)
  from assms(2) have fresh: "\<not> time ph < modTime i"
    by (simp add: handlerOk_def)
  from assms(6) have some: "profileMap s fp = Some ph"
    by (simp add: phaseStored_def)
  show ?thesis
  proof (cases p)
    case AtStat
    with assms True th ht show ?thesis
      by (auto simp: step_def setPc_def singleFlightInv_def lockInv_def phaseStored_def
          nth_list_update)
  next
    case (AtLoad j)
    with assms True th ht sp fresh some show ?thesis
      by (auto simp: step_def setPc_def singleFlightInv_def lockInv_def phaseStored_def
          nth_list_update)
  next
    case AtLock
    with assms True th ht show ?thesis
      by (auto simp: step_def setPc_def singleFlightInv_def lockInv_def phaseStored_def
          nth_list_update split: option.splits)
  next
    case AtRecheck
    with assms True th ht some show ?thesis
      by (auto simp: step_def setPc_def singleFlightInv_def lockInv_def phaseStored_def
          nth_list_update)
  next
    case (AtUnlock r)
    with assms True th ht sp show ?thesis
      by (auto simp: step_def setPc_def singleFlightInv_def lockInv_def phaseStored_def
          nth_list_update)
  next
    case (Done r)
    with assms True th show ?thesis
      by (auto simp: step_def singleFlightInv_def)
  qed (use sp in simp_all)
qed

lemma singleFlightInv_step:
  assumes "stat e fp = Inr i" "driverPProf e fp = Returns (Inr hs)" "modTime i \<le> now"
    and "singleFlightInv i hs fp m s"
  shows "singleFlightInv i hs fp m (step e now t s)"
  using assms cold_step [of e fp i hs now m s t] built_step [of e fp i hs _ m s now t]
    stored_step [of e fp i hs _ m s now t]
  unfolding singleFlightInv_def by blast

lemma singleFlightInv_run:
  assumes "stat e fp = Inr i" "driverPProf e fp = Returns (Inr hs)"
  shows "stepsFrom (modTime i) evs \<Longrightarrow> singleFlightInv i hs fp m s \<Longrightarrow>
         singleFlightInv i hs fp m (run e evs s)"
proof (induction evs arbitrary: s)
  case Nil
  then show ?case by simp
next
  case (Cons ev evs)
  then show ?case
    by (cases ev) (auto intro: singleFlightInv_step [OF assms])
qed

lemma singleFlightInv_callers: "m fp = None \<Longrightarrow> singleFlightInv i hs fp m (callers n fp m)"
  by (simp add: singleFlightInv_def lockInv_def phaseCold_def callers_def)

subsection \<open>The invariant of a failing build is kept\<close>

lemma filter_update_length:
  "t < length xs \<Longrightarrow>
   length (filter P (xs[t := x])) + (if P (xs ! t) then 1 else 0) =
   length (filter P xs) + (if P x then 1 else 0)"
proof (induction xs arbitrary: t)
  case Nil
  then show ?case by simp
next
  case (Cons y ys)
  then show ?case by (cases t) auto
qed

lemma filter_update_same:
  "t < length xs \<Longrightarrow> P x = P (xs ! t) \<Longrightarrow> length (filter P (xs[t := x])) = length (filter P xs)"
  using filter_update_length [of t xs P x] by (simp split: if_splits)

lemma filter_update_new:
  "t < length xs \<Longrightarrow> P x \<Longrightarrow> \<not> P (xs ! t) \<Longrightarrow>
   length (filter P (xs[t := x])) = Suc (length (filter P xs))"
  using filter_update_length [of t xs P x] by simp

lemma retry_step:
  assumes "stat e fp = Inr i" "driverPProf e fp = Returns (Inl err)" "retryInv i err fp m s"
  shows "retryInv i err fp m (step e now t s)"
proof (cases "t < length (threads s)")
  case False
  with assms show ?thesis by (simp add: step_def)
next
  case True
  from assms(3) have l: "lockInv fp s" and m: "profileMap s = m" and mn: "m fp = None"
    and x: "\<not> exited s"
    and c: "pprofCalls s = replicate (length (filter built (threads s))) fp"
    and ok: "\<forall>t < length (threads s). failedOk i err (snd (threads s ! t))"
    by (simp_all add: retryInv_def)
  from m mn have none: "profileMap s fp = None"
    by simp
  from l True obtain p where th: "threads s ! t = (fp, p)"
    by (cases "threads s ! t") (auto simp: lockInv_def)
  from lockInv_at [OF l True] th have ht: "holdsMu p = (mu s = Some t)"
    by simp
  from ok True th have fp: "failedOk i err p"
    by auto
  have keep: "retryInv i err fp m (setPc t q s)"
    if "holdsMu q = holdsMu p" "failedOk i err q" "built (fp, q) = built (fp, p)" for q
    using that l m mn x c ok True th ht
    by (auto simp: retryInv_def lockInv_def setPc_def nth_list_update filter_update_same)
  show ?thesis
  proof (cases p)
    case AtStat
    with assms(1) x True th keep [of "AtLoad i"] show ?thesis
      by (simp add: step_def)
  next
    case (AtLoad j)
    with none x True th keep [of AtLock] show ?thesis
      by (simp add: step_def)
  next
    case AtLock
    show ?thesis
    proof (cases "mu s")
      case None
      with AtLock l m mn x c ok True th ht show ?thesis
        by (auto simp: step_def retryInv_def lockInv_def setPc_def nth_list_update
            filter_update_same)
    next
      case (Some holder)
      with AtLock True th assms(3) show ?thesis
        by (simp add: step_def)
    qed
  next
    case AtRecheck
    with none x True th keep [of AtBuild] show ?thesis
      by (simp add: step_def)
  next
    case AtBuild
    let ?s = "setPc t (AtUnlock (Inl err)) (s\<lparr>pprofCalls := pprofCalls s @ [fp]\<rparr>)"
    from AtBuild x True th have st: "step e now t s = ?s"
      by (simp add: step_def buildHandler_fails [OF assms(2)])
    from AtBuild ht have mt: "mu s = Some t" by simp
    have n: "length (filter built ((threads s)[t := (fp, AtUnlock (Inl err))])) =
        Suc (length (filter built (threads s)))"
      using True th AtBuild by (simp add: filter_update_new)
    have "retryInv i err fp m ?s"
      using l m mn x c ok True th AtBuild mt n
      by (auto simp: retryInv_def lockInv_def setPc_def nth_list_update
          replicate_append_same)
    then show ?thesis by (simp add: st)
  next
    case (AtUnlock r)
    with l m mn x c ok True th ht fp show ?thesis
      by (auto simp: step_def retryInv_def lockInv_def setPc_def nth_list_update
          filter_update_same)
  next
    case (Done r)
    with True th assms(3) show ?thesis
      by (simp add: step_def)
  qed (use fp in simp_all)
qed

lemma retryInv_run:
  assumes "stat e fp = Inr i" "driverPProf e fp = Returns (Inl err)"
  shows "stepsFrom x evs \<Longrightarrow> retryInv i err fp m s \<Longrightarrow> retryInv i err fp m (run e evs s)"
proof (induction evs arbitrary: s)
  case Nil
  then show ?case by simp
next
  case (Cons ev evs)
  then show ?case
    by (cases ev) (auto intro: retry_step [OF assms])
qed

lemma retryInv_callers: "m fp = None \<Longrightarrow> retryInv i err fp m (callers n fp m)"
  by (simp add: retryInv_def lockInv_def callers_def)

lemma every_caller_retries:
  assumes "stat e fp = Inr i" "driverPProf e fp = Returns (Inl err)" "m fp = None"
    and "stepsFrom x evs"
    and "allReturned (run e evs (callers n fp m))"
  shows "pprofCalls (run e evs (callers n fp m)) = replicate n fp \<and>
         profileMap (run e evs (callers n fp m)) = m \<and>
         threads (run e evs (callers n fp m)) = replicate n (fp, Done (Inl err))"
proof -
  let ?s = "run e evs (callers n fp m)"
  have inv: "retryInv i err fp m ?s"
    using retryInv_run [OF assms(1,2,4)] retryInv_callers [of m fp i err n] assms(3)
    by blast
  have len: "length (threads ?s) = n"
    by (simp add: length_threads_run callers_def)
  have each: "threads ?s ! t = (fp, Done (Inl err))" if "t < n" for t
  proof -
    from inv that len have "failedOk i err (snd (threads ?s ! t))" "fst (threads ?s ! t) = fp"
      by (simp_all add: retryInv_def lockInv_def)
    moreover from assms(5) that len have "returned (snd (threads ?s ! t))"
      by (simp add: allReturned_def list_all_length)
    ultimately show ?thesis
      by (cases "threads ?s ! t"; cases "snd (threads ?s ! t)") simp_all
  qed
  have ths: "threads ?s = replicate n (fp, Done (Inl err))"
    using len each by (intro nth_equalityI) simp_all
  from inv have "pprofCalls ?s = replicate (length (filter built (threads ?s))) fp"
    and "profileMap ?s = m"
    by (simp_all add: retryInv_def)
  with ths show ?thesis by simp
qed

subsection \<open>No caller gets past a build that ends the process\<close>

lemma exit_step:
  assumes "stat e fp = Inr i" "driverPProf e fp = ProcessExit" "exitInv i fp s"
  shows "exitInv i fp (step e now t s)"
proof (cases "exited s \<or> length (threads s) \<le> t")
  case True
  with assms(3) show ?thesis by (simp add: step_def)
next
  case False
  then have x: "\<not> exited s" and lt: "t < length (threads s)"
    by simp_all
  from assms(3) lt obtain p where th: "threads s ! t = (fp, p)" and cp: "coldOk i p"
    by (cases "threads s ! t") (auto simp: exitInv_def)
  from assms(3) have none: "profileMap s fp = None"
    by (simp add: exitInv_def)
  have keep: "exitInv i fp (setPc t q (s\<lparr>mu := h\<rparr>))" if "coldOk i q" for q h
    using that assms(3) lt th
    by (auto simp: exitInv_def setPc_def nth_list_update)
  have keep': "exitInv i fp (setPc t q s)" if "coldOk i q" for q
    using that assms(3) lt th
    by (auto simp: exitInv_def setPc_def nth_list_update)
  show ?thesis
  proof (cases p)
    case AtStat
    with assms(1) x lt th keep' [of "AtLoad i"] show ?thesis
      by (simp add: step_def)
  next
    case (AtLoad j)
    with none x lt th keep' [of AtLock] show ?thesis
      by (simp add: step_def)
  next
    case AtLock
    with x lt th keep [of AtRecheck "Some t"] assms(3) show ?thesis
      by (simp add: step_def split: option.splits)
  next
    case AtRecheck
    with none x lt th keep' [of AtBuild] show ?thesis
      by (simp add: step_def)
  next
    case AtBuild
    with x lt th assms(3) show ?thesis
      by (simp add: step_def buildHandler_exits [OF assms(2)] exitInv_def)
  qed (use cp in simp_all)
qed

lemma exitInv_run:
  assumes "stat e fp = Inr i" "driverPProf e fp = ProcessExit"
  shows "stepsFrom x evs \<Longrightarrow> exitInv i fp s \<Longrightarrow> exitInv i fp (run e evs s)"
proof (induction evs arbitrary: s)
  case Nil
  then show ?case by simp
next
  case (Cons ev evs)
  then show ?case
    by (cases ev) (auto intro: exit_step [OF assms])
qed

lemma exitInv_callers: "m fp = None \<Longrightarrow> exitInv i fp (callers n fp m)"
  by (simp add: exitInv_def callers_def)

lemma nobody_returns_after_exit:
  assumes "stat e fp = Inr i" "driverPProf e fp = ProcessExit" "m fp = None" "0 < n"
    and "stepsFrom x evs"
  shows "\<not> allReturned (run e evs (callers n fp m))"
proof
  let ?s = "run e evs (callers n fp m)"
  assume ret: "allReturned ?s"
  have inv: "exitInv i fp ?s"
    using exitInv_run [OF assms(1,2,5)] exitInv_callers [of m fp i n] assms(3)
    by blast
  have len: "length (threads ?s) = n"
    by (simp add: length_threads_run callers_def)
  from inv len assms(4) have "coldOk i (snd (threads ?s ! 0))"
    by (simp add: exitInv_def)
  moreover from ret len assms(4) have "returned (snd (threads ?s ! 0))"
    by (simp add: allReturned_def list_all_length)
  ultimately show False
    by (cases "snd (threads ?s ! 0)") simp_all
qed

subsection \<open>Callers can return\<close>

text \<open>
  The interleavings considered below are not empty: when the callers run one after another
  and the build succeeds, every one of them returns.
\<close>

lemma getHandler_fresh:
  assumes "stat e fp = Inr i" "driverPProf e fp = Returns (Inr hs)" "modTime i \<le> now"
    and "m fp = None \<or> (\<exists>ph. m fp = Some ph \<and> modTime i \<le> time ph)"
  shows "\<exists>ph. fst (getHandler e now fp \<lparr>profileMap = m, pprofCalls = c\<rparr>) = Returns (Inr ph) \<and>
              profileMap (snd (getHandler e now fp \<lparr>profileMap = m, pprofCalls = c\<rparr>)) fp = Some ph \<and>
              modTime i \<le> time ph"
  using assms
  by (auto simp: getHandler_def getHandlerLocked_def buildHandler_renders [OF assms(2)])

lemma seqRun_returns:
  assumes "stat e fp = Inr i" "driverPProf e fp = Returns (Inr hs)" "modTime i \<le> now"
  shows "list_all (\<lambda>th. returned (snd th)) xs \<Longrightarrow>
         m fp = None \<or> (\<exists>ph. m fp = Some ph \<and> modTime i \<le> time ph) \<Longrightarrow>
         allReturned (run e (seqRun (length xs) n now)
           \<lparr>profileMap = m, pprofCalls = c, mu = None,
            threads = xs @ replicate n (fp, AtStat), exited = False\<rparr>)"
proof (induction n arbitrary: xs m c)
  case 0
  then show ?case by (simp add: seqRun_def allReturned_def)
next
  case (Suc n)
  let ?g = "getHandler e now fp \<lparr>profileMap = m, pprofCalls = c\<rparr>"
  from getHandler_fresh [of e fp i hs now m c] assms Suc.prems(2)
  obtain ph where ph: "fst ?g = Returns (Inr ph)" "profileMap (snd ?g) fp = Some ph"
    "modTime i \<le> time ph"
    by blast
  have sr: "seqRun (length xs) (Suc n) now =
        replicate 8 (Step (length xs) now) @ seqRun (length (xs @ [(fp, Done (Inr ph))])) n now"
    by (simp add: seqRun_def upt_conv_Cons del: upt_Suc)
  have ret: "list_all (\<lambda>th. returned (snd th)) (xs @ [(fp, Done (Inr ph))])"
    using Suc.prems(1) by simp
  have val: "profileMap (snd ?g) fp = None \<or>
      (\<exists>ph. profileMap (snd ?g) fp = Some ph \<and> modTime i \<le> time ph)"
    using ph by blast
  from ph(1) have g: "?g = (Returns (Inr ph), snd ?g)"
    by (metis prod.collapse)
  have a: "run e (replicate 8 (Step (length xs) now))
        \<lparr>profileMap = m, pprofCalls = c, mu = None,
         threads = xs @ replicate (Suc n) (fp, AtStat), exited = False\<rparr> =
      \<lparr>profileMap = profileMap (snd ?g), pprofCalls = pprofCalls (snd ?g), mu = None,
       threads = (xs @ [(fp, Done (Inr ph))]) @ replicate n (fp, AtStat), exited = False\<rparr>"
    using alone_at [OF refl, of e xs now m c fp "replicate n (fp, AtStat)"]
    by (subst (asm) g) simp
  from Suc.IH [of "xs @ [(fp, Done (Inr ph))]" "profileMap (snd ?g)" "pprofCalls (snd ?g)"] ret val
  show ?case
    unfolding sr run_replicate_Step a by blast
qed

lemma callers_can_return:
  assumes "stat e fp = Inr i" "driverPProf e fp = Returns (Inr hs)" "m fp = None"
    and "modTime i \<le> now"
  shows "stepsFrom (modTime i) (seqRun 0 n now) \<and>
         allReturned (run e (seqRun 0 n now) (callers n fp m))"
proof -
  have steps: "stepsFrom x (replicate j (Step t now) @ evs) =
      (x \<le> now \<and> stepsFrom x evs \<or> j = 0 \<and> stepsFrom x evs)"
    for x j t evs
    by (induction j) auto
  have "stepsFrom (modTime i) (seqRun k n now)" for k
  proof (induction n arbitrary: k)
    case 0
    then show ?case by (simp add: seqRun_def)
  next
    case (Suc n)
    have "seqRun k (Suc n) now = replicate 8 (Step k now) @ seqRun (Suc k) n now"
      by (simp add: seqRun_def upt_conv_Cons del: upt_Suc)
    with Suc [of "Suc k"] assms(4) show ?case
      by (simp only: steps) simp
  qed
  moreover have "allReturned (run e (seqRun 0 n now) (callers n fp m))"
    using seqRun_returns [OF assms(1,2,4), of "[]" m n "[]"] assms(3)
    by (simp add: callers_def)
  ultimately show ?thesis by blast
qed

subsection \<open>Single flight\<close>

text \<open>
  Claim C1 fails as stated: when the renderer fails, nothing is stored, and the caller that
  waited for the mutex finds the slot empty and calls the renderer itself. Two callers, both
  past the first lookup before either builds: the renderer is called twice.
\<close>

theorem failed_build_repeated_by_waiter:
  "allReturned (run demoEnv contendedRun (callers 2 ''r/broken.prof'' Map.empty)) \<and>
   pprofCalls (run demoEnv contendedRun (callers 2 ''r/broken.prof'' Map.empty)) =
     [''r/broken.prof'', ''r/broken.prof'']"
  by (simp add: contendedRun_def run_defs build_broken stat_broken eval_nat_numeral)

text \<open>
  The clock readings matter as well: when the build happens at a clock reading before the
  file's modification time, the stored entry is stale at once and the second caller rebuilds.
\<close>

lemma early_clock_rebuilds:
  "allReturned (run demoEnv earlyClockRun (callers 2 ''r/report.prof'' Map.empty)) \<and>
   pprofCalls (run demoEnv earlyClockRun (callers 2 ''r/report.prof'' Map.empty)) =
     [''r/report.prof'', ''r/report.prof'']"
  by (simp add: earlyClockRun_def run_defs build_report reportHandler_def stat_report
      eval_nat_numeral)

text \<open>On success the two callers of the contended run both return.\<close>

lemma contended_returns:
  "allReturned (run demoEnv contendedRun (callers 2 ''r/report.prof'' Map.empty))"
  by (simp add: contendedRun_def run_defs build_report reportHandler_def stat_report
      eval_nat_numeral)

lemma contended_fails:
  "allReturned (run demoEnv contendedRun (callers 2 ''r/broken.prof'' Map.empty))"
  by (simp add: contendedRun_def run_defs build_broken stat_broken eval_nat_numeral)

text \<open>A successful build is made once, whatever the interleaving.\<close>

lemma one_build_on_success:
  assumes "stat e fp = Inr i" "driverPProf e fp = Returns (Inr hs)" "m fp = None" "0 < n"
    and "stepsFrom (modTime i) evs"
    and "allReturned (run e evs (callers n fp m))"
  shows "pprofCalls (run e evs (callers n fp m)) = [fp] \<and>
         (\<exists>ph. args ph = wrapHandlers hs \<and>
               profileMap (run e evs (callers n fp m)) = m(fp \<mapsto> ph) \<and>
               threads (run e evs (callers n fp m)) = replicate n (fp, Done (Inr ph)))"
proof -
  let ?s = "run e evs (callers n fp m)"
  have inv: "singleFlightInv i hs fp m ?s"
    using singleFlightInv_run [OF assms(1,2,5)] singleFlightInv_callers [of m fp i hs n] assms(3)
    by blast
  have len: "length (threads ?s) = n"
    by (simp add: length_threads_run callers_def)
  have ret: "\<forall>t < n. returned (snd (threads ?s ! t))"
    using assms(6) len by (simp add: allReturned_def list_all_length)
  with assms(4) have r0: "returned (snd (threads ?s ! 0))"
    by simp
  have notCold: "\<not> phaseCold i m ?s"
  proof
    assume "phaseCold i m ?s"
    with assms(4) len have "coldOk i (snd (threads ?s ! 0))"
      by (simp add: phaseCold_def)
    with r0 show False by (cases "snd (threads ?s ! 0)") simp_all
  qed
  have notBuilt: "\<not> phaseBuilt i fp m ph ?s" for ph
  proof
    assume "phaseBuilt i fp m ph ?s"
    with assms(4) len have "builtOk i ph (snd (threads ?s ! 0))"
      by (simp add: phaseBuilt_def)
    with r0 show False by (cases "snd (threads ?s ! 0)") simp_all
  qed
  from inv notCold notBuilt obtain ph where ph: "handlerOk i hs ph" "phaseStored i fp m ph ?s"
    unfolding singleFlightInv_def by blast
  from inv have keys: "\<forall>t < n. fst (threads ?s ! t) = fp"
    using len by (simp add: singleFlightInv_def lockInv_def)
  have each: "threads ?s ! t = (fp, Done (Inr ph))" if "t < n" for t
  proof -
    from ph(2) that len have "storedOk i ph (snd (threads ?s ! t))"
      by (simp add: phaseStored_def)
    moreover from ret that have "returned (snd (threads ?s ! t))" by simp
    ultimately have "snd (threads ?s ! t) = Done (Inr ph)"
      by (cases "snd (threads ?s ! t)") simp_all
    with keys that show ?thesis by (cases "threads ?s ! t") auto
  qed
  have "threads ?s = replicate n (fp, Done (Inr ph))"
    using len each by (intro nth_equalityI) simp_all
  with ph show ?thesis
    by (auto simp: handlerOk_def phaseStored_def)
qed

text \<open>
  Claim C1, amended. Let the file of a key exist and let the key have no entry in the table
  \<open>m\<close>. For every number \<open>n \<ge> 1\<close> of callers of \<open>getHandler\<close> for that key and every
  interleaving of their steps, taken at clock readings not before the file's modification
  time and with no write to the file meanwhile, once all callers have returned (so the
  renderer has returned too): if the renderer succeeds on the file, it has been called
  exactly once, the rendered handler set is the key's entry, the rest of the table is as it
  was, and every caller has returned that same handler set; if the renderer fails on the
  file, it has been called once for each caller, nothing is stored (the table is as it
  was), and every caller has returned the same error, the renderer's.
\<close>

theorem single_flight:
  assumes "stat e fp = Inr i" "m fp = None" "0 < n"
    and "stepsFrom (modTime i) evs"
    and "allReturned (run e evs (callers n fp m))"
  shows "case driverPProf e fp of
           ProcessExit \<Rightarrow> False
         | Returns (Inr hs) \<Rightarrow>
             pprofCalls (run e evs (callers n fp m)) = [fp] \<and>
             (\<exists>ph. args ph = wrapHandlers hs \<and>
                   profileMap (run e evs (callers n fp m)) = m(fp \<mapsto> ph) \<and>
                   threads (run e evs (callers n fp m)) = replicate n (fp, Done (Inr ph)))
         | Returns (Inl err) \<Rightarrow>
             pprofCalls (run e evs (callers n fp m)) = replicate n fp \<and>
             profileMap (run e evs (callers n fp m)) = m \<and>
             threads (run e evs (callers n fp m)) = replicate n (fp, Done (Inl err))"
proof (cases "driverPProf e fp")
  case ProcessExit
  with nobody_returns_after_exit [of e fp i m n "modTime i" evs] assms
  show ?thesis by simp
next
  case (Returns r)
  show ?thesis
  proof (cases r)
    case (Inl err)
    with Returns have d: "driverPProf e fp = Returns (Inl err)" by simp
    from every_caller_retries [of e fp i err m "modTime i" evs n] assms d show ?thesis
      by simp
  next
    case (Inr hs)
    with Returns have d: "driverPProf e fp = Returns (Inr hs)" by simp
    from one_build_on_success [of e fp i hs m n evs] assms d show ?thesis
      by simp
  qed
qed

theorem single_flight_witness:
  "stat demoEnv ''r/report.prof'' = Inr \<lparr>modTime = 50, isDir = False\<rparr> \<and>
   stepsFrom 50 contendedRun \<and>
   allReturned (run demoEnv contendedRun (callers 2 ''r/report.prof'' Map.empty)) \<and>
   pprofCalls (run demoEnv contendedRun (callers 2 ''r/report.prof'' Map.empty)) =
     [''r/report.prof''] \<and>
   (\<exists>ph. profileMap (run demoEnv contendedRun (callers 2 ''r/report.prof'' Map.empty)) =
           [''r/report.prof'' \<mapsto> ph] \<and>
         threads (run demoEnv contendedRun (callers 2 ''r/report.prof'' Map.empty)) =
           replicate 2 (''r/report.prof'', Done (Inr ph))) \<and>
   stat demoEnv ''r/broken.prof'' = Inr \<lparr>modTime = 20, isDir = False\<rparr> \<and>
   stepsFrom 20 contendedRun \<and>
   allReturned (run demoEnv contendedRun (callers 2 ''r/broken.prof'' Map.empty)) \<and>
   profileMap (run demoEnv contendedRun (callers 2 ''r/broken.prof'' Map.empty)) = Map.empty \<and>
   threads (run demoEnv contendedRun (callers 2 ''r/broken.prof'' Map.empty)) =
     replicate 2 (''r/broken.prof'', Done (Inl (PProfError ''r/broken.prof'')))"
proof -
  have m: "(Map.empty :: string \<rightharpoonup> PProfHandler) ''r/report.prof'' = None"
    and m': "(Map.empty :: string \<rightharpoonup> PProfHandler) ''r/broken.prof'' = None"
    by simp_all
  have n: "0 < (2::nat)"
    by simp
  have s: "stepsFrom (modTime \<lparr>modTime = 50, isDir = False\<rparr>) contendedRun"
    by (simp add: contendedRun_def)
  have s': "stepsFrom (modTime \<lparr>modTime = 20, isDir = False\<rparr>) contendedRun"
    by (simp add: contendedRun_def)
  show ?thesis
    using single_flight [of demoEnv "''r/report.prof''" _ Map.empty 2 contendedRun,
        OF stat_report m n s contended_returns]
      single_flight [of demoEnv "''r/broken.prof''" _ Map.empty 2 contendedRun,
        OF stat_broken m' n s' contended_fails]
      stat_report stat_broken s s' contended_returns contended_fails
    by (auto simp: driver_report driver_broken)
qed

text \<open>
  When the file's name is taken for a flag, the first caller to build ends the process and
  no caller returns.
\<close>

lemma dash_file_build_exits:
  "exited (run dotEnv (replicate 5 (Step 0 100)) (callers 2 ''-x.prof'' Map.empty)) \<and>
   threads (run dotEnv (replicate 5 (Step 0 100) @ replicate 5 (Step 1 101))
      (callers 2 ''-x.prof'' Map.empty)) =
     [(''-x.prof'', AtBuild), (''-x.prof'', AtStat)]"
  by (simp add: run_defs dotEnv_def buildHandler_def driverPProf_def parseExits_def
      eval_nat_numeral)

subsection \<open>The second lookup\<close>

text \<open>
  Claim C4, evaluated where the code departs from it. Caller 1 builds the entry at clock
  reading 100 and has not stored it yet; the file is written at 150; caller 0 reads the
  file's time (150) and misses the table; caller 1 stores and unlocks; caller 0 takes the
  mutex, and its second lookup hands back the entry loaded at 100, older than the file as
  caller 0 itself saw it.
\<close>

theorem recheck_returns_stale_entry:
  "threads (run demoEnv (take 8 staleRecheckRun) (callers 2 ''r/report.prof'' Map.empty)) =
     [(''r/report.prof'', AtLock), (''r/report.prof'', AtStore (reportHandler 100))] \<and>
   threads (run demoEnv (take 7 staleRecheckRun) (callers 2 ''r/report.prof'' Map.empty)) ! 0 =
     (''r/report.prof'', AtLoad \<lparr>modTime = 150, isDir = False\<rparr>) \<and>
   threads (run demoEnv (take 12 staleRecheckRun) (callers 2 ''r/report.prof'' Map.empty)) ! 0 =
     (''r/report.prof'', AtUnlock (Inr (reportHandler 100))) \<and>
   threads (run demoEnv staleRecheckRun (callers 2 ''r/report.prof'' Map.empty)) ! 0 =
     (''r/report.prof'', Done (Inr (reportHandler 100))) \<and>
   time (reportHandler 100) < 150"
  by (simp add: staleRecheckRun_def run_defs buildHandler_def driverPProf_def parseExits_def
      reportHandler_def demoEnv_def eval_nat_numeral)

end
